theory Spec2Isabelle
  imports Main "HOL-Library.Sublist"
begin

section \<open>The quality gate runner: \<^verbatim>\<open>run-quality-gates.py\<close>\<close>

text \<open>
  The script prints a header, then runs four commands through \<^verbatim>\<open>subprocess.run\<close>
  (install, build, test, lint) inside one \<^verbatim>\<open>try\<close> block with two handlers.
  Everything it does is visible from outside as a sequence of events (a command is
  launched, a line is printed) followed by the exit status of the process. The model
  computes that sequence and that status from the answers of the outside world.
\<close>

subsection \<open>Text\<close>

text \<open>
  Python's \<^verbatim>\<open>str\<close> is modelled by \<^typ>\<open>string\<close>; the two non-ASCII characters of
  the script's messages (U+2713 and U+2728) are written as their UTF-8 bytes.
\<close>

definition newline :: char where
  "newline = CHR 0x0A"

definition check_mark :: string where
  "check_mark = [CHR 0xE2, CHR 0x9C, CHR 0x93]"

definition sparkles :: string where
  "sparkles = [CHR 0xE2, CHR 0x9C, CHR 0xA8]"

text \<open>What an f-string writes for an integer: its decimal digits, with a sign when negative.\<close>

definition digit :: "nat \<Rightarrow> char" where
  "digit d = ''0123456789'' ! d"

fun str_nat :: "nat \<Rightarrow> string" where
  "str_nat n = (if n < 10 then [digit n] else str_nat (n div 10) @ [digit (n mod 10)])"

declare str_nat.simps [simp del]

definition str_int :: "int \<Rightarrow> string" where
  "str_int i = (if i < 0 then CHR ''-'' # str_nat (nat (- i)) else str_nat (nat i))"

subsection \<open>The outside world\<close>

text \<open>
  What happens when an argument vector is launched and waited for: either the child
  process runs to completion, with its return code and the text captured from its two
  streams (\<^verbatim>\<open>capture_output=True, text=True\<close>, so both are strings, possibly empty),
  or launching it raises an \<^verbatim>\<open>Exception\<close> (an \<^verbatim>\<open>OSError\<close> when \<^verbatim>\<open>wsl\<close> is not
  there, for instance), of which the script only uses \<^verbatim>\<open>str(e)\<close>.
  Every argument vector is launched at most once in a run, so a function from argument
  vectors to outcomes describes all the outside world can answer.
\<close>

datatype outcome = Exited int string string | Raised string

type_synonym env = "string list \<Rightarrow> outcome"

text \<open>
  The events of a run. \<open>Say\<close> is a \<^verbatim>\<open>print\<close> of a message the script composes
  itself, \<open>Forward\<close> a \<^verbatim>\<open>print\<close> of text captured from a child process; both write
  to the same standard output, see \<open>console\<close> below.
\<close>

datatype event = Invoke "string list" | Say string | Forward string

record completed_process =
  returncode :: int
  stdout :: string
  stderr :: string

datatype exn =
    CalledProcessError int string string
  | Exception string
  | SystemExit int

text \<open>
  A statement yields the events it caused and either a value or the exception it raised.
\<close>

type_synonym 'a action = "(exn + 'a) \<times> event list"

definition bind :: "'a action \<Rightarrow> ('a \<Rightarrow> 'b action) \<Rightarrow> 'b action" where
  "bind m f =
     (case m of
        (Inl e, t) \<Rightarrow> (Inl e, t)
      | (Inr x, t) \<Rightarrow> (case f x of (r, t') \<Rightarrow> (r, t @ t')))"

definition seq :: "unit action \<Rightarrow> 'b action \<Rightarrow> 'b action" where
  "seq m k = bind m (\<lambda>_. k)"

definition skip :: "unit action" where
  "skip = (Inr (), [])"

definition print :: "string \<Rightarrow> unit action" where
  "print s = (Inr (), [Say s])"

definition print_captured :: "string \<Rightarrow> unit action" where
  "print_captured s = (Inr (), [Forward s])"

definition sys_exit :: "int \<Rightarrow> unit action" where
  "sys_exit n = (Inl (SystemExit n), [])"

text \<open>
  \<^verbatim>\<open>subprocess.run(args, check=True, capture_output=True, text=True)\<close>: with
  \<^verbatim>\<open>check=True\<close> a non-zero return code raises \<^verbatim>\<open>CalledProcessError\<close>, which
  carries the return code and both captured streams.
\<close>

definition subprocess_run :: "env \<Rightarrow> string list \<Rightarrow> completed_process action" where
  "subprocess_run env args =
     (case env args of
        Raised msg \<Rightarrow> (Inl (Exception msg), [Invoke args])
      | Exited rc out err \<Rightarrow>
          if rc \<noteq> 0 then (Inl (CalledProcessError rc out err), [Invoke args])
          else (Inr \<lparr>returncode = rc, stdout = out, stderr = err\<rparr>, [Invoke args]))"

subsection \<open>The script\<close>

definition wsl :: "string \<Rightarrow> string list" where
  "wsl cmd = [''wsl'', ''-d'', ''Ubuntu'', ''-e'', ''bash'', ''-c'', cmd]"

definition install_args :: "string list" where
  "install_args = wsl ''cd /home/skynet/freshtrack-pro-local/fresh-staged && npm install''"

definition build_args :: "string list" where
  "build_args = wsl ''cd /home/skynet/freshtrack-pro-local/fresh-staged && npm run build''"

definition test_args :: "string list" where
  "test_args = wsl ''cd /home/skynet/freshtrack-pro-local/fresh-staged && npm test''"

definition lint_args :: "string list" where
  "lint_args = wsl ''cd /home/skynet/freshtrack-pro-local/fresh-staged && npm run lint''"

definition header_line :: string where
  "header_line = ''Running quality gates for freshtrack-pro project...''"

definition banners :: "string list" where
  "banners =
     [''Step 1: Installing dependencies...'',
      ''Step 2: Running build process...'',
      ''Step 3: Running test suite...'',
      ''Step 4: Checking for linting issues...'']"

definition success_lines :: "string list" where
  "success_lines =
     [check_mark @ '' Dependencies installed successfully'',
      check_mark @ '' Build completed successfully'',
      check_mark @ '' All tests passed'',
      check_mark @ '' No linting issues found'']"

definition final_message :: string where
  "final_message = sparkles @ '' All quality gates passed! '' @ sparkles"

text \<open>Lines 9 to 20.\<close>

definition step1 :: "env \<Rightarrow> unit action" where
  "step1 env =
     seq (print (banners ! 0))
    (bind (subprocess_run env install_args) (\<lambda>result.
     seq (if stdout result \<noteq> [] then print_captured (stdout result) else skip)
    (seq (print (success_lines ! 0))
         (print ''''))))"

text \<open>Lines 22 to 33.\<close>

definition step2 :: "env \<Rightarrow> unit action" where
  "step2 env =
     seq (print (banners ! 1))
    (bind (subprocess_run env build_args) (\<lambda>result.
     seq (if stdout result \<noteq> [] then print_captured (stdout result) else skip)
    (seq (print (success_lines ! 1))
         (print ''''))))"

text \<open>Lines 35 to 46.\<close>

definition step3 :: "env \<Rightarrow> unit action" where
  "step3 env =
     seq (print (banners ! 2))
    (bind (subprocess_run env test_args) (\<lambda>result.
     seq (if stdout result \<noteq> [] then print_captured (stdout result) else skip)
    (seq (print (success_lines ! 2))
         (print ''''))))"

text \<open>Lines 48 to 59.\<close>

definition step4 :: "env \<Rightarrow> unit action" where
  "step4 env =
     seq (print (banners ! 3))
    (bind (subprocess_run env lint_args) (\<lambda>result.
     seq (if stdout result \<noteq> [] then print_captured (stdout result) else skip)
    (seq (print (success_lines ! 3))
         (print ''''))))"

text \<open>The body of the \<^verbatim>\<open>try\<close> block, lines 9 to 61.\<close>

definition try_body :: "env \<Rightarrow> unit action" where
  "try_body env =
     seq (step1 env) (seq (step2 env) (seq (step3 env) (seq (step4 env)
       (print final_message))))"

definition error_summary :: "int \<Rightarrow> string" where
  "error_summary rc = ''Error: Command failed with exit code '' @ str_int rc"

text \<open>The handler of \<^verbatim>\<open>subprocess.CalledProcessError\<close>, lines 64 to 71.\<close>

definition on_called_process_error :: "int \<Rightarrow> string \<Rightarrow> string \<Rightarrow> unit action" where
  "on_called_process_error rc out err =
     seq (print (error_summary rc))
    (seq (if out \<noteq> [] then seq (print (newline # ''Output:'')) (print_captured out) else skip)
    (seq (if err \<noteq> [] then seq (print (newline # ''Error:'')) (print_captured err) else skip)
         (sys_exit 1)))"

text \<open>The handler of \<^verbatim>\<open>Exception\<close>, lines 73 and 74.\<close>

definition on_exception :: "string \<Rightarrow> unit action" where
  "on_exception msg = seq (print (''Error: '' @ msg)) (sys_exit 1)"

text \<open>
  The \<^verbatim>\<open>try\<close> statement: the first handler whose class matches runs, after the events
  the body had caused. \<^verbatim>\<open>SystemExit\<close> is no \<^verbatim>\<open>Exception\<close> and passes through.
\<close>

definition try_except :: "unit action \<Rightarrow> unit action" where
  "try_except body =
     (case body of
        (Inl (CalledProcessError rc out err), t) \<Rightarrow>
          (case on_called_process_error rc out err of (r, t') \<Rightarrow> (r, t @ t'))
      | (Inl (Exception msg), t) \<Rightarrow>
          (case on_exception msg of (r, t') \<Rightarrow> (r, t @ t'))
      | other \<Rightarrow> other)"

text \<open>The module body, lines 4 to 74.\<close>

definition main :: "env \<Rightarrow> unit action" where
  "main env =
     seq (print header_line)
    (seq (print '''')
         (try_except (try_body env)))"

text \<open>
  The interpreter around the module: leaving the module normally is exit status 0,
  \<^verbatim>\<open>SystemExit(n)\<close> is exit status \<open>n\<close>, any other exception reaching the top is
  reported with exit status 1.
\<close>

definition run :: "env \<Rightarrow> event list \<times> int" where
  "run env =
     (case main env of
        (Inr _, t) \<Rightarrow> (t, 0)
      | (Inl (SystemExit n), t) \<Rightarrow> (t, n)
      | (Inl _, t) \<Rightarrow> (t, 1))"

definition trace :: "env \<Rightarrow> event list" where
  "trace env = fst (run env)"

definition exit_code :: "env \<Rightarrow> int" where
  "exit_code env = snd (run env)"

subsection \<open>Vocabulary of the properties\<close>

text \<open>The four steps in their order; \<open>step k\<close> is the command of step \<open>k\<close>, counted from 1.\<close>

definition steps :: "string list list" where
  "steps = [install_args, build_args, test_args, lint_args]"

definition step :: "nat \<Rightarrow> string list" where
  "step k = steps ! (k - 1)"

definition banner :: "nat \<Rightarrow> string" where
  "banner k = banners ! (k - 1)"

definition success_line :: "nat \<Rightarrow> string" where
  "success_line k = success_lines ! (k - 1)"

text \<open>A command succeeds when its process runs to completion with return code 0.\<close>

fun succeeded :: "outcome \<Rightarrow> bool" where
  "succeeded (Exited rc out err) = (rc = 0)"
| "succeeded (Raised msg) = False"

definition succeeds :: "env \<Rightarrow> string list \<Rightarrow> bool" where
  "succeeds env args = succeeded (env args)"

text \<open>The commands launched, in the order of their launch.\<close>

fun invoked :: "event list \<Rightarrow> string list list" where
  "invoked [] = []"
| "invoked (Invoke args # es) = args # invoked es"
| "invoked (e # es) = invoked es"

text \<open>The characters written to standard output: \<^verbatim>\<open>print\<close> ends each argument with a newline.\<close>

fun console :: "event list \<Rightarrow> string" where
  "console [] = []"
| "console (Invoke args # es) = console es"
| "console (Say s # es) = s @ newline # console es"
| "console (Forward s # es) = s @ newline # console es"

text \<open>Some occurrence of \<open>a\<close> is followed, later in the list, by an occurrence of \<open>b\<close>.\<close>

fun emitted_before :: "'a \<Rightarrow> 'a \<Rightarrow> 'a list \<Rightarrow> bool" where
  "emitted_before a b [] = False"
| "emitted_before a b (x # xs) = ((x = a \<and> b \<in> set xs) \<or> emitted_before a b xs)"

text \<open>
  The events of a step that succeeds (\<open>ok_block\<close>), and what the handler of
  \<^verbatim>\<open>CalledProcessError\<close> prints for one captured stream (\<open>captured_block\<close>).
\<close>

definition passthrough :: "string \<Rightarrow> event list" where
  "passthrough out = (if out \<noteq> [] then [Forward out] else [])"

definition ok_block :: "nat \<Rightarrow> string \<Rightarrow> event list" where
  "ok_block k out =
     [Say (banner k), Invoke (step k)] @ passthrough out @ [Say (success_line k), Say '''']"

definition captured_block :: "string \<Rightarrow> string \<Rightarrow> event list" where
  "captured_block label text = (if text \<noteq> [] then [Say (newline # label), Forward text] else [])"

fun stdout_of :: "outcome \<Rightarrow> string" where
  "stdout_of (Exited rc out err) = out"
| "stdout_of (Raised msg) = []"

text \<open>The events of steps 1 to \<open>n\<close> when each of them succeeds.\<close>

fun blocks :: "env \<Rightarrow> nat \<Rightarrow> event list" where
  "blocks env 0 = []"
| "blocks env (Suc n) = blocks env n @ ok_block (Suc n) (stdout_of (env (step (Suc n))))"

text \<open>
  The four blocks of the script differ in their three constants only: each of them is
  \<open>step_block\<close> at its number (lemma \<open>step_blocks\<close>).
\<close>

definition step_block :: "env \<Rightarrow> nat \<Rightarrow> unit action" where
  "step_block env k =
     seq (print (banner k))
    (bind (subprocess_run env (step k)) (\<lambda>result.
     seq (if stdout result \<noteq> [] then print_captured (stdout result) else skip)
    (seq (print (success_line k))
         (print ''''))))"

text \<open>The answer without the captured standard error of a command that succeeded.\<close>

fun without_ok_stderr :: "outcome \<Rightarrow> outcome" where
  "without_ok_stderr (Exited rc out err) = (if rc = 0 then Exited rc out [] else Exited rc out err)"
| "without_ok_stderr (Raised msg) = Raised msg"

subsection \<open>Three scenarios\<close>

text \<open>A: every command exits 0. B: install exits 0, build exits 2. C: \<^verbatim>\<open>wsl\<close> cannot be started.\<close>

definition env_A :: env where
  "env_A args = (if args = test_args then Exited 0 ''12 passing'' ''npm warn'' else Exited 0 [] [])"

definition env_B :: env where
  "env_B args =
     (if args = install_args then Exited 0 ''added 1 package'' []
      else if args = build_args then Exited 2 ''tsc'' ''TS2304''
      else Exited 0 [] [])"

definition env_C :: env where
  "env_C args = Raised ''[WinError 2] The system cannot find the file specified''"

section \<open>How a run unfolds\<close>

lemma str_int_examples:
  "str_int 0 = ''0''" "str_int 2 = ''2''" "str_int 130 = ''130''" "str_int (- 15) = ''-15''"
  by (simp_all add: str_int_def str_nat.simps digit_def)

lemma steps_distinct: "distinct steps"
  by (simp add: steps_def install_args_def build_args_def test_args_def lint_args_def wsl_def)

lemma args_neq:
  "install_args \<noteq> build_args" "install_args \<noteq> test_args" "install_args \<noteq> lint_args"
  "build_args \<noteq> install_args" "build_args \<noteq> test_args" "build_args \<noteq> lint_args"
  "test_args \<noteq> install_args" "test_args \<noteq> build_args" "test_args \<noteq> lint_args"
  "lint_args \<noteq> install_args" "lint_args \<noteq> build_args" "lint_args \<noteq> test_args"
  using steps_distinct by (auto simp: steps_def)

lemma step_simps:
  "step 1 = install_args" "step 2 = build_args" "step 3 = test_args" "step 4 = lint_args"
  "step (Suc 0) = install_args"
  by (simp_all add: step_def steps_def)

lemma step_blocks:
  "step1 env = step_block env 1" "step2 env = step_block env 2"
  "step3 env = step_block env 3" "step4 env = step_block env 4"
  by (simp_all add: step1_def step2_def step3_def step4_def step_block_def banner_def step_def
      success_line_def steps_def)

lemma step_block_ok:
  "env (step k) = Exited 0 out err \<Longrightarrow> step_block env k = (Inr (), ok_block k out)"
  by (simp add: step_block_def seq_def bind_def print_def print_captured_def skip_def
      subprocess_run_def ok_block_def passthrough_def)

lemma step_block_succeeds:
  "succeeds env (step k) \<Longrightarrow> step_block env k = (Inr (), ok_block k (stdout_of (env (step k))))"
  by (cases "env (step k)") (simp_all add: succeeds_def step_block_ok)

lemma step_block_failed:
  "env (step k) = Exited rc out err \<Longrightarrow> rc \<noteq> 0 \<Longrightarrow>
   step_block env k = (Inl (CalledProcessError rc out err), [Say (banner k), Invoke (step k)])"
  by (simp add: step_block_def seq_def bind_def print_def subprocess_run_def)

lemma step_block_raised:
  "env (step k) = Raised msg \<Longrightarrow>
   step_block env k = (Inl (Exception msg), [Say (banner k), Invoke (step k)])"
  by (simp add: step_block_def seq_def bind_def print_def subprocess_run_def)

lemma step_number: "1 \<le> k \<Longrightarrow> k \<le> 4 \<Longrightarrow> k = 1 \<or> k = 2 \<or> k = 3 \<or> k = (4::nat)"
  by arith

lemma blocks_numeral:
  "blocks env 1 = ok_block 1 (stdout_of (env (step 1)))"
  "blocks env 2 = blocks env 1 @ ok_block 2 (stdout_of (env (step 2)))"
  "blocks env 3 = blocks env 2 @ ok_block 3 (stdout_of (env (step 3)))"
  "blocks env 4 = blocks env 3 @ ok_block 4 (stdout_of (env (step 4)))"
  by (simp_all add: eval_nat_numeral)

lemma try_body_stop:
  assumes "1 \<le> k" "k \<le> 4" "\<forall>j. 1 \<le> j \<and> j < k \<longrightarrow> succeeds env (step j)"
    and "step_block env k = (Inl e, t)"
  shows "try_body env = (Inl e, blocks env (k - 1) @ t)"
proof -
  from assms(1,2) consider "k = 1" | "k = 2" | "k = 3" | "k = 4"
    using step_number by blast
  then show ?thesis
  proof cases
    case 1
    with assms(4) show ?thesis
      by (simp add: try_body_def step_blocks seq_def bind_def)
  next
    case 2
    with assms(3) have "succeeds env (step 1)" by simp
    with 2 assms(4) show ?thesis
      by (simp add: try_body_def step_blocks seq_def bind_def step_block_succeeds blocks_numeral)
  next
    case 3
    with assms(3) have "succeeds env (step 1)" "succeeds env (step 2)" by simp_all
    with 3 assms(4) show ?thesis
      by (simp add: try_body_def step_blocks seq_def bind_def step_block_succeeds blocks_numeral)
  next
    case 4
    with assms(3) have "succeeds env (step 1)" "succeeds env (step 2)" "succeeds env (step 3)"
      by simp_all
    with 4 assms(4) show ?thesis
      by (simp add: try_body_def step_blocks seq_def bind_def step_block_succeeds blocks_numeral)
  qed
qed

lemma try_body_ok:
  assumes "succeeds env (step 1)" "succeeds env (step 2)" "succeeds env (step 3)"
    "succeeds env (step 4)"
  shows "try_body env = (Inr (), blocks env 4 @ [Say final_message])"
  using assms
  by (simp add: try_body_def step_blocks seq_def bind_def step_block_succeeds blocks_numeral
      print_def)

lemma run_ok:
  assumes "succeeds env (step 1)" "succeeds env (step 2)" "succeeds env (step 3)"
    "succeeds env (step 4)"
  shows "run env = ([Say header_line, Say ''''] @ blocks env 4 @ [Say final_message], 0)"
  by (simp add: run_def main_def try_body_ok [OF assms] try_except_def seq_def bind_def print_def)

lemma run_failed:
  assumes "1 \<le> k" "k \<le> 4" "\<forall>j. 1 \<le> j \<and> j < k \<longrightarrow> succeeds env (step j)"
    and "env (step k) = Exited rc out err" "rc \<noteq> 0"
  shows "run env =
    ([Say header_line, Say ''''] @ blocks env (k - 1) @
     [Say (banner k), Invoke (step k), Say (error_summary rc)] @
     captured_block ''Output:'' out @ captured_block ''Error:'' err, 1)"
proof -
  have "step_block env k =
      (Inl (CalledProcessError rc out err), [Say (banner k), Invoke (step k)])"
    using assms(4,5) by (rule step_block_failed)
  with assms(1,2,3)
  have "try_body env = (Inl (CalledProcessError rc out err),
      blocks env (k - 1) @ [Say (banner k), Invoke (step k)])"
    by (rule try_body_stop)
  then show ?thesis
    by (simp add: run_def main_def try_except_def seq_def bind_def print_def print_captured_def
        skip_def sys_exit_def on_called_process_error_def captured_block_def)
qed

lemma run_raised:
  assumes "1 \<le> k" "k \<le> 4" "\<forall>j. 1 \<le> j \<and> j < k \<longrightarrow> succeeds env (step j)"
    and "env (step k) = Raised msg"
  shows "run env =
    ([Say header_line, Say ''''] @ blocks env (k - 1) @
     [Say (banner k), Invoke (step k), Say (''Error: '' @ msg)], 1)"
proof -
  have "step_block env k = (Inl (Exception msg), [Say (banner k), Invoke (step k)])"
    using assms(4) by (rule step_block_raised)
  with assms(1,2,3)
  have "try_body env = (Inl (Exception msg),
      blocks env (k - 1) @ [Say (banner k), Invoke (step k)])"
    by (rule try_body_stop)
  then show ?thesis
    by (simp add: run_def main_def try_except_def seq_def bind_def print_def
        sys_exit_def on_exception_def)
qed

lemma first_failure:
  assumes "\<not> (succeeds env (step 1) \<and> succeeds env (step 2) \<and> succeeds env (step 3) \<and>
    succeeds env (step 4))"
  obtains k where "1 \<le> k" "k \<le> 4" "\<forall>j. 1 \<le> j \<and> j < k \<longrightarrow> succeeds env (step j)"
    "\<not> succeeds env (step k)"
proof -
  have two: "j = 1" if "1 \<le> j \<and> j < 2" for j :: nat
    using that by arith
  have three: "j = 1 \<or> j = 2" if "1 \<le> j \<and> j < 3" for j :: nat
    using that by arith
  have four: "j = 1 \<or> j = 2 \<or> j = 3" if "1 \<le> j \<and> j < 4" for j :: nat
    using that by arith
  consider "\<not> succeeds env (step 1)"
    | "succeeds env (step 1)" "\<not> succeeds env (step 2)"
    | "succeeds env (step 1)" "succeeds env (step 2)" "\<not> succeeds env (step 3)"
    | "succeeds env (step 1)" "succeeds env (step 2)" "succeeds env (step 3)"
      "\<not> succeeds env (step 4)"
    using assms by blast
  then show thesis
  proof cases
    case 1
    then show ?thesis using that [of 1] by simp
  next
    case 2
    then have "\<forall>j. 1 \<le> j \<and> j < 2 \<longrightarrow> succeeds env (step j)"
      using two by blast
    with 2 show ?thesis using that [of 2] by simp
  next
    case 3
    then have "\<forall>j. 1 \<le> j \<and> j < 3 \<longrightarrow> succeeds env (step j)"
      using three by blast
    with 3 show ?thesis using that [of 3] by simp
  next
    case 4
    then have "\<forall>j. 1 \<le> j \<and> j < 4 \<longrightarrow> succeeds env (step j)"
      using four by blast
    with 4 show ?thesis using that [of 4] by simp
  qed
qed

lemma invoked_append: "invoked (xs @ ys) = invoked xs @ invoked ys"
  by (induction xs rule: invoked.induct) simp_all

lemma invoked_ok_block: "invoked (ok_block k out) = [step k]"
  by (simp add: ok_block_def passthrough_def)

lemma invoked_blocks: "n \<le> 4 \<Longrightarrow> invoked (blocks env n) = take n steps"
proof -
  assume "n \<le> 4"
  then consider "n = 0" | "n = 1" | "n = 2" | "n = 3" | "n = 4" by arith
  then show ?thesis
    by cases
      (simp_all add: blocks_numeral invoked_append invoked_ok_block step_simps steps_def)
qed

lemma env_B_simps:
  "env_B (step 1) = Exited 0 ''added 1 package'' []"
  "env_B (step 2) = Exited 2 ''tsc'' ''TS2304''"
  "env_B (step 3) = Exited 0 [] []"
  "env_B (step 4) = Exited 0 [] []"
  by (simp_all add: env_B_def step_simps args_neq)

lemma env_A_simps:
  "env_A (step 1) = Exited 0 [] []"
  "env_A (step 2) = Exited 0 [] []"
  "env_A (step 3) = Exited 0 ''12 passing'' ''npm warn''"
  "env_A (step 4) = Exited 0 [] []"
  by (simp_all add: env_A_def step_simps args_neq)

lemma earlier_steps:
  "(\<forall>j::nat. 1 \<le> j \<and> j < 1 \<longrightarrow> P j) = True"
  "(\<forall>j::nat. 1 \<le> j \<and> j < 2 \<longrightarrow> P j) = P 1"
  "(\<forall>j::nat. 1 \<le> j \<and> j < 3 \<longrightarrow> P j) = (P 1 \<and> P 2)"
  "(\<forall>j::nat. 1 \<le> j \<and> j < 4 \<longrightarrow> P j) = (P 1 \<and> P 2 \<and> P 3)"
proof -
  have two: "j = 1" if "1 \<le> j \<and> j < 2" for j :: nat
    using that by arith
  have three: "j = 1 \<or> j = 2" if "1 \<le> j \<and> j < 3" for j :: nat
    using that by arith
  have four: "j = 1 \<or> j = 2 \<or> j = 3" if "1 \<le> j \<and> j < 4" for j :: nat
    using that by arith
  show "(\<forall>j::nat. 1 \<le> j \<and> j < 1 \<longrightarrow> P j) = True" by auto
  show "(\<forall>j::nat. 1 \<le> j \<and> j < 2 \<longrightarrow> P j) = P 1"
    using two by fastforce
  show "(\<forall>j::nat. 1 \<le> j \<and> j < 3 \<longrightarrow> P j) = (P 1 \<and> P 2)"
    using three by fastforce
  show "(\<forall>j::nat. 1 \<le> j \<and> j < 4 \<longrightarrow> P j) = (P 1 \<and> P 2 \<and> P 3)"
    using four by fastforce
qed

lemma invoked_set: "set (invoked t) = {args. Invoke args \<in> set t}"
  by (induction t rule: invoked.induct) auto

lemma nth_in_take:
  assumes "distinct xs" "i < length xs"
  shows "(xs ! i \<in> set (take k xs)) = (i < k)"
proof
  assume "xs ! i \<in> set (take k xs)"
  then obtain m where m: "m < length (take k xs)" "take k xs ! m = xs ! i"
    by (auto simp: in_set_conv_nth)
  then have "xs ! m = xs ! i" "m < length xs" "m < k" by simp_all
  with assms have "m = i" by (simp add: nth_eq_iff_index_eq)
  with \<open>m < k\<close> show "i < k" by simp
next
  assume "i < k"
  with assms(2) have "take k xs ! i \<in> set (take k xs)"
    by (intro nth_mem) simp
  with \<open>i < k\<close> show "xs ! i \<in> set (take k xs)" by simp
qed

lemma step_in_take:
  "1 \<le> j \<Longrightarrow> j \<le> 4 \<Longrightarrow> (step j \<in> set (take k steps)) = (j \<le> k)"
  using nth_in_take [OF steps_distinct, of "j - 1" k]
  by (auto simp: step_def steps_def)

lemma all_steps: "(\<forall>args\<in>set steps. P args) = (P (step 1) \<and> P (step 2) \<and> P (step 3) \<and> P (step 4))"
  by (simp add: steps_def step_def)

lemma take_all_steps: "take 4 steps = steps"
  by (simp add: steps_def)

lemma take_steps:
  "take (k - 1) steps @ [step k] = take k steps"
  "take (k - Suc 0) steps @ [step k] = take k steps" if "1 \<le> k" "k \<le> 4"
  using step_number [OF that] by (auto simp: steps_def step_def)

lemma run_cases:
  obtains (all_ok) "\<forall>args\<in>set steps. succeeds env args"
      "run env = ([Say header_line, Say ''''] @ blocks env 4 @ [Say final_message], 0)"
  | (failed) k rc out err where "1 \<le> k" "k \<le> 4"
      "\<forall>j. 1 \<le> j \<and> j < k \<longrightarrow> succeeds env (step j)"
      "env (step k) = Exited rc out err" "rc \<noteq> 0"
      "run env =
        ([Say header_line, Say ''''] @ blocks env (k - 1) @
         [Say (banner k), Invoke (step k), Say (error_summary rc)] @
         captured_block ''Output:'' out @ captured_block ''Error:'' err, 1)"
  | (raised) k msg where "1 \<le> k" "k \<le> 4"
      "\<forall>j. 1 \<le> j \<and> j < k \<longrightarrow> succeeds env (step j)"
      "env (step k) = Raised msg"
      "run env =
        ([Say header_line, Say ''''] @ blocks env (k - 1) @
         [Say (banner k), Invoke (step k), Say (''Error: '' @ msg)], 1)"
proof (cases "succeeds env (step 1) \<and> succeeds env (step 2) \<and> succeeds env (step 3) \<and>
    succeeds env (step 4)")
  case True
  then show ?thesis
    using all_ok run_ok [of env] by (simp add: all_steps)
next
  case False
  then obtain k where k: "1 \<le> k" "k \<le> 4"
    "\<forall>j. 1 \<le> j \<and> j < k \<longrightarrow> succeeds env (step j)" "\<not> succeeds env (step k)"
    by (rule first_failure)
  show ?thesis
  proof (cases "env (step k)")
    case (Exited rc out err)
    with k(4) have "rc \<noteq> 0" by (simp add: succeeds_def)
    with k Exited show ?thesis
      using failed [of k rc out err] run_failed [of k env rc out err] by blast
  next
    case (Raised msg)
    with k show ?thesis
      using raised [of k msg] run_raised [of k env msg] by blast
  qed
qed

lemma env_A_succeeds: "\<forall>args\<in>set steps. succeeds env_A args"
  by (simp only: all_steps succeeds_def env_A_simps succeeded.simps simp_thms)

lemma invoked_captured_block: "invoked (captured_block label text) = []"
  by (simp add: captured_block_def)

lemma count_ok_block: "count_list (ok_block k out) (Say final_message) = 0"
  if "1 \<le> k" "k \<le> 4"
  using step_number [OF that]
  by (auto simp: ok_block_def passthrough_def banner_def banners_def success_line_def
      success_lines_def final_message_def check_mark_def sparkles_def)

lemma count_blocks: "n \<le> 4 \<Longrightarrow> count_list (blocks env n) (Say final_message) = 0"
proof (induction n)
  case 0
  then show ?case by simp
next
  case (Suc n)
  then show ?case by (simp add: count_ok_block)
qed

lemma env_C_simps: "env_C (step k) = Raised ''[WinError 2] The system cannot find the file specified''"
  by (simp add: env_C_def)

lemma env_A_args:
  "env_A install_args = Exited 0 [] []"
  "env_A build_args = Exited 0 [] []"
  "env_A test_args = Exited 0 ''12 passing'' ''npm warn''"
  "env_A lint_args = Exited 0 [] []"
  using env_A_simps by (simp_all only: step_simps)

lemma env_B_args:
  "env_B install_args = Exited 0 ''added 1 package'' []"
  "env_B build_args = Exited 2 ''tsc'' ''TS2304''"
  using env_B_simps by (simp_all only: step_simps)

lemma run_env_A:
  "run env_A =
    ([Say header_line, Say '''',
      Say (banner 1), Invoke install_args, Say (success_line 1), Say '''',
      Say (banner 2), Invoke build_args, Say (success_line 2), Say '''',
      Say (banner 3), Invoke test_args, Forward ''12 passing'', Say (success_line 3), Say '''',
      Say (banner 4), Invoke lint_args, Say (success_line 4), Say '''',
      Say final_message], 0)"
proof -
  have "succeeds env_A (step 1)" "succeeds env_A (step 2)" "succeeds env_A (step 3)"
    "succeeds env_A (step 4)"
    by (simp_all only: succeeds_def env_A_simps succeeded.simps)
  then have "run env_A = ([Say header_line, Say ''''] @ blocks env_A 4 @ [Say final_message], 0)"
    by (rule run_ok)
  then show ?thesis
    by (simp add: blocks_numeral env_A_args ok_block_def passthrough_def step_simps)
qed

lemma run_env_B:
  "run env_B =
    ([Say header_line, Say '''',
      Say (banner 1), Invoke install_args, Forward ''added 1 package'', Say (success_line 1),
      Say '''',
      Say (banner 2), Invoke build_args,
      Say (error_summary 2), Say (newline # ''Output:''), Forward ''tsc'',
      Say (newline # ''Error:''), Forward ''TS2304''], 1)"
proof -
  have "succeeds env_B (step 1)"
    by (simp only: succeeds_def env_B_simps succeeded.simps)
  then have "\<forall>j. 1 \<le> j \<and> j < 2 \<longrightarrow> succeeds env_B (step j)"
    by (simp only: earlier_steps)
  then have "run env_B =
    ([Say header_line, Say ''''] @ blocks env_B (2 - 1) @
     [Say (banner 2), Invoke (step 2), Say (error_summary 2)] @
     captured_block ''Output:'' ''tsc'' @ captured_block ''Error:'' ''TS2304'', 1)"
    using run_failed [of 2 env_B 2 "''tsc''" "''TS2304''"] by (simp add: env_B_simps)
  then show ?thesis
    by (simp add: blocks_numeral env_B_args ok_block_def passthrough_def step_simps
        captured_block_def)
qed

lemma run_env_C:
  "run env_C =
    ([Say header_line, Say '''', Say (banner 1), Invoke install_args,
      Say ''Error: [WinError 2] The system cannot find the file specified''], 1)"
  using run_raised [of 1 env_C "''[WinError 2] The system cannot find the file specified''"]
  by (simp add: env_C_def step_simps)

lemma env_B_fails: "\<not> (\<forall>args\<in>set steps. succeeds env_B args)"
  by (simp only: all_steps succeeds_def env_B_simps succeeded.simps) simp

lemma env_C_fails: "\<not> (\<forall>args\<in>set steps. succeeds env_C args)"
  by (simp only: all_steps succeeds_def env_C_simps succeeded.simps) simp

lemma emitted_before_iff:
  "emitted_before a b xs = (\<exists>pre post. xs = pre @ a # post \<and> b \<in> set post)"
proof (induction xs)
  case Nil
  then show ?case by simp
next
  case (Cons x xs)
  show ?case
  proof
    assume "emitted_before a b (x # xs)"
    then consider "x = a" "b \<in> set xs" | "emitted_before a b xs" by auto
    then show "\<exists>pre post. x # xs = pre @ a # post \<and> b \<in> set post"
    proof cases
      case 1
      then have "x # xs = [] @ a # xs \<and> b \<in> set xs" by simp
      then show ?thesis by blast
    next
      case 2
      with Cons.IH obtain pre post where "xs = pre @ a # post" "b \<in> set post" by blast
      then have "x # xs = (x # pre) @ a # post \<and> b \<in> set post" by simp
      then show ?thesis by blast
    qed
  next
    assume "\<exists>pre post. x # xs = pre @ a # post \<and> b \<in> set post"
    then obtain pre post where eq: "x # xs = pre @ a # post" and b: "b \<in> set post" by blast
    show "emitted_before a b (x # xs)"
    proof (cases pre)
      case Nil
      with eq b show ?thesis by simp
    next
      case (Cons y ys)
      with eq have "xs = ys @ a # post" by simp
      with b Cons.IH have "emitted_before a b xs" by blast
      then show ?thesis by simp
    qed
  qed
qed

lemma summary_not_said:
  "Say (error_summary rc) \<notin> set (ok_block k out)" if "1 \<le> k" "k \<le> 4"
  using step_number [OF that]
  by (auto simp: ok_block_def passthrough_def banner_def banners_def success_line_def
      success_lines_def error_summary_def check_mark_def)

lemma summary_not_in_blocks: "n \<le> 4 \<Longrightarrow> Say (error_summary rc) \<notin> set (blocks env n)"
proof (induction n)
  case 0
  then show ?case by simp
next
  case (Suc n)
  then show ?case by (simp add: summary_not_said)
qed

lemma summary_not_banner:
  "1 \<le> k \<Longrightarrow> k \<le> 4 \<Longrightarrow> error_summary rc \<noteq> banner k"
  "error_summary rc \<noteq> header_line" "error_summary rc \<noteq> []"
  "error_summary rc \<noteq> newline # ''Output:''" "error_summary rc \<noteq> newline # ''Error:''"
  using step_number [of k]
  by (auto simp: banner_def banners_def error_summary_def header_line_def newline_def)

lemma blocks_prefix: "m \<le> n \<Longrightarrow> prefix (blocks env m) (blocks env n)"
proof (induction n)
  case 0
  then show ?case by simp
next
  case (Suc n)
  show ?case
  proof (cases "m = Suc n")
    case True
    then show ?thesis by simp
  next
    case False
    with Suc.prems have "m \<le> n" by simp
    then have "prefix (blocks env m) (blocks env n)" by (rule Suc.IH)
    then show ?thesis by (simp add: prefix_prefix)
  qed
qed

lemma blocks_start:
  "1 \<le> n \<Longrightarrow> \<exists>r. blocks env n = Say (banner 1) # Invoke (step 1) # r"
proof (induction n)
  case 0
  then show ?case by simp
next
  case (Suc n)
  show ?case
  proof (cases "n = 0")
    case True
    then show ?thesis by (simp add: ok_block_def)
  next
    case False
    then have "1 \<le> n" by simp
    then obtain r where "blocks env n = Say (banner 1) # Invoke (step 1) # r"
      using Suc.IH by blast
    then show ?thesis by simp
  qed
qed

lemma trace_reaches:
  assumes "1 \<le> k" "k \<le> 4" "\<forall>j. 1 \<le> j \<and> j \<le> k \<longrightarrow> succeeds env (step j)"
  shows "\<exists>post. trace env = [Say header_line, Say ''''] @ blocks env k @ post"
proof (cases env rule: run_cases)
  case all_ok
  from assms(2) have "prefix (blocks env k) (blocks env 4)" by (rule blocks_prefix)
  then obtain r where "blocks env 4 = blocks env k @ r" by (auto simp: prefix_def)
  with all_ok(2) show ?thesis by (simp add: trace_def)
next
  case (failed k' rc out err)
  then have "\<not> succeeds env (step k')" by (simp add: succeeds_def)
  with assms(3) failed(1) have "k \<le> k' - 1" by (cases "k' \<le> k") auto
  then have "prefix (blocks env k) (blocks env (k' - 1))" by (rule blocks_prefix)
  then obtain r where "blocks env (k' - 1) = blocks env k @ r" by (auto simp: prefix_def)
  with failed(6) show ?thesis by (simp add: trace_def)
next
  case (raised k' msg)
  then have "\<not> succeeds env (step k')" by (simp add: succeeds_def)
  with assms(3) raised(1) have "k \<le> k' - 1" by (cases "k' \<le> k") auto
  then have "prefix (blocks env k) (blocks env (k' - 1))" by (rule blocks_prefix)
  then obtain r where "blocks env (k' - 1) = blocks env k @ r" by (auto simp: prefix_def)
  with raised(5) show ?thesis by (simp add: trace_def)
qed

lemma step_block_stderr:
  assumes "without_ok_stderr (env (step k)) = without_ok_stderr (env' (step k))"
  shows "step_block env k = step_block env' k"
proof (cases "env (step k)")
  case (Exited rc out err)
  note e = this
  show ?thesis
  proof (cases "env' (step k)")
    case (Exited rc' out' err')
    with e assms have same: "rc' = rc" "out' = out" and "rc \<noteq> 0 \<longrightarrow> err' = err"
      by (auto split: if_splits)
    show ?thesis
    proof (cases "rc = 0")
      case True
      with e Exited same show ?thesis by (simp add: step_block_ok)
    next
      case False
      with e Exited same \<open>rc \<noteq> 0 \<longrightarrow> err' = err\<close> show ?thesis
        by (simp add: step_block_failed)
    qed
  next
    case (Raised msg)
    with e assms show ?thesis by (auto split: if_splits)
  qed
next
  case (Raised msg)
  with assms have "env' (step k) = Raised msg"
    by (cases "env' (step k)") (auto split: if_splits)
  with Raised show ?thesis by (simp add: step_block_raised)
qed

lemma launched_all:
  assumes "\<forall>args\<in>set steps. succeeds env args"
  shows "take (Suc (length (takeWhile (succeeds env) steps))) steps = steps"
proof -
  from assms have "takeWhile (succeeds env) steps = steps"
    by (simp add: takeWhile_eq_all_conv)
  then have "length (takeWhile (succeeds env) steps) = length steps"
    by (rule arg_cong)
  then show ?thesis by simp
qed

lemma launched_stop:
  assumes "1 \<le> k" "k \<le> 4"
    and "\<forall>j. 1 \<le> j \<and> j < k \<longrightarrow> succeeds env (step j)"
    and "\<not> succeeds env (step k)"
  shows "take (Suc (length (takeWhile (succeeds env) steps))) steps = take k steps"
proof -
  have "takeWhile (succeeds env) steps = take (k - 1) steps"
  proof (rule takeWhile_eq_take_P_nth)
    fix i
    assume "i < k - 1" "i < length steps"
    then have "1 \<le> Suc i \<and> Suc i < k" by simp
    with assms(3) have "succeeds env (step (Suc i))" by blast
    then show "succeeds env (steps ! i)" by (simp add: step_def)
  next
    from assms(4) show "\<not> succeeds env (steps ! (k - 1))" by (simp add: step_def)
  qed
  moreover have "length steps = 4" by (simp add: steps_def)
  ultimately have "length (takeWhile (succeeds env) steps) = k - 1"
    using assms(2) by simp
  with assms(1) show ?thesis by simp
qed

lemma launches:
  obtains k where "1 \<le> k" "k \<le> 4" "invoked (trace env) = take k steps"
    "\<forall>j. 1 \<le> j \<and> j < k \<longrightarrow> succeeds env (step j)"
    "(\<forall>args\<in>set steps. succeeds env args) \<and> k = 4 \<or> \<not> succeeds env (step k)"
proof (cases env rule: run_cases)
  case all_ok
  then have "invoked (trace env) = take 4 steps"
    by (simp add: trace_def invoked_append invoked_blocks take_all_steps)
  moreover from all_ok(1) have "\<forall>j. 1 \<le> j \<and> j < 4 \<longrightarrow> succeeds env (step j)"
    by (simp only: all_steps earlier_steps)
  ultimately show ?thesis
    using all_ok(1) that [of 4] by simp
next
  case (failed k rc out err)
  then have "invoked (trace env) = take k steps"
    by (simp add: trace_def invoked_append invoked_blocks invoked_captured_block take_steps)
  moreover from failed(4,5) have "\<not> succeeds env (step k)"
    by (simp add: succeeds_def)
  ultimately show ?thesis
    using failed(1,2,3) that [of k] by blast
next
  case (raised k msg)
  then have "invoked (trace env) = take k steps"
    by (simp add: trace_def invoked_append invoked_blocks take_steps)
  moreover from raised(4) have "\<not> succeeds env (step k)"
    by (simp add: succeeds_def)
  ultimately show ?thesis
    using raised(1,2,3) that [of k] by blast
qed

section \<open>The properties\<close>

text \<open>
  In what follows, ``step \<open>k\<close> is reached'' is expressed by the commands of steps 1 to
  \<open>k - 1\<close> succeeding: a later command has an outcome only when it is launched.
\<close>

subsection \<open>Fail fast\<close>

text \<open>
  C1. When step \<open>k\<close> (counted from 1) is the first step whose command returns a non-zero
  exit code, the commands launched are exactly those of steps 1 to \<open>k\<close>, in this order;
  the commands of steps \<open>k + 1\<close> to 4 are never launched, and the process exits with
  code 1.
\<close>

theorem fail_fast:
  assumes "1 \<le> k" "k \<le> 4"
    and "\<forall>j. 1 \<le> j \<and> j < k \<longrightarrow> succeeds env (step j)"
    and "env (step k) = Exited rc out err" "rc \<noteq> 0"
  shows "invoked (trace env) = take k steps
    \<and> (\<forall>j. k < j \<and> j \<le> 4 \<longrightarrow> Invoke (step j) \<notin> set (trace env))
    \<and> exit_code env = 1"
proof -
  have inv: "invoked (trace env) = take k steps"
  proof -
    have "invoked (trace env) = take (k - 1) steps @ [step k]"
      using assms(2)
      by (simp add: trace_def run_failed [OF assms] invoked_append invoked_blocks
          captured_block_def)
    also have "\<dots> = take k steps"
      using step_number [OF assms(1,2)]
      by (auto simp: steps_def step_simps)
    finally show ?thesis .
  qed
  have later: "Invoke (step j) \<notin> set (trace env)" if "k < j \<and> j \<le> 4" for j
  proof
    assume "Invoke (step j) \<in> set (trace env)"
    then have "step j \<in> set (invoked (trace env))"
      by (simp add: invoked_set)
    then have "step j \<in> set (take k steps)"
      by (simp only: inv)
    with that show False
      using assms(1) by (simp add: step_in_take)
  qed
  have "exit_code env = 1"
    by (simp add: exit_code_def run_failed [OF assms])
  with inv later show ?thesis by blast
qed

theorem fail_fast_witness:
  "env_B (step 2) = Exited 2 ''tsc'' ''TS2304'' \<and> succeeds env_B (step 1)
   \<and> invoked (trace env_B) = [install_args, build_args]
   \<and> Invoke test_args \<notin> set (trace env_B) \<and> Invoke lint_args \<notin> set (trace env_B)
   \<and> exit_code env_B = 1"
proof -
  have first: "succeeds env_B (step 1)"
    by (simp only: succeeds_def env_B_simps succeeded.simps)
  then have earlier: "\<forall>j. 1 \<le> j \<and> j < 2 \<longrightarrow> succeeds env_B (step j)"
    by (simp only: earlier_steps)
  have second: "env_B (step 2) = Exited 2 ''tsc'' ''TS2304''"
    by (rule env_B_simps)
  have r: "invoked (trace env_B) = take 2 steps
    \<and> (\<forall>j. 2 < j \<and> j \<le> 4 \<longrightarrow> Invoke (step j) \<notin> set (trace env_B))
    \<and> exit_code env_B = 1"
    using fail_fast [of 2 env_B 2 "''tsc''" "''TS2304''"] earlier second
    by simp
  then have later: "\<forall>j. 2 < j \<and> j \<le> 4 \<longrightarrow> Invoke (step j) \<notin> set (trace env_B)"
    by blast
  have "(2::nat) < 3 \<and> (3::nat) \<le> 4" "(2::nat) < 4 \<and> (4::nat) \<le> 4"
    by simp_all
  with later have "Invoke (step 3) \<notin> set (trace env_B)" "Invoke (step 4) \<notin> set (trace env_B)"
    by blast+
  then have "Invoke test_args \<notin> set (trace env_B)" "Invoke lint_args \<notin> set (trace env_B)"
    by (simp_all add: step_simps)
  moreover have "invoked (trace env_B) = [install_args, build_args]"
    using r by (simp add: steps_def)
  moreover have "exit_code env_B = 1"
    using r by blast
  ultimately show ?thesis
    using first second by blast
qed

subsection \<open>Full success\<close>

text \<open>
  C2. When the commands of all four steps return exit code 0, the process exits with code 0
  and the script prints its final message exactly once, as the last thing it prints.
  What is counted is the script's own \<^verbatim>\<open>print\<close> of the message (line 61), not the
  text a command may have written to its standard output.
\<close>

theorem all_pass:
  assumes "\<forall>args\<in>set steps. succeeds env args"
  shows "exit_code env = 0 \<and> count_list (trace env) (Say final_message) = 1
    \<and> last (trace env) = Say final_message"
proof -
  from assms have "run env = ([Say header_line, Say ''''] @ blocks env 4 @ [Say final_message], 0)"
    using run_ok [of env] by (simp add: all_steps)
  moreover have "count_list (blocks env 4) (Say final_message) = 0"
    by (simp add: count_blocks)
  moreover have "header_line \<noteq> final_message" "[] \<noteq> final_message"
    by (simp_all add: header_line_def final_message_def sparkles_def)
  ultimately show ?thesis
    by (simp add: exit_code_def trace_def)
qed

theorem all_pass_witness:
  "succeeds env_A install_args \<and> succeeds env_A build_args \<and> succeeds env_A test_args
   \<and> succeeds env_A lint_args \<and> exit_code env_A = 0
   \<and> count_list (trace env_A) (Say final_message) = 1
   \<and> last (trace env_A) = Say final_message"
proof -
  have ok: "\<forall>args\<in>set steps. succeeds env_A args"
    by (rule env_A_succeeds)
  then have "succeeds env_A install_args" "succeeds env_A build_args"
    "succeeds env_A test_args" "succeeds env_A lint_args"
    by (simp_all add: steps_def)
  with ok show ?thesis
    using all_pass [of env_A] by blast
qed

subsection \<open>Order of the steps\<close>

text \<open>
  C3. In every run the commands launched are a prefix of install, build, test, lint, and
  exactly the prefix that ends with the first step that does not succeed (all four when all
  succeed): none is skipped or moved, a command is launched only after every earlier one
  has succeeded, and a step whose earlier steps have all succeeded is launched.
\<close>

theorem steps_in_order:
  "invoked (trace env) = take (Suc (length (takeWhile (succeeds env) steps))) steps
   \<and> prefix (invoked (trace env)) steps
   \<and> (\<forall>i j. j < i \<and> i < length (invoked (trace env)) \<longrightarrow> succeeds env (steps ! j))
   \<and> (\<forall>i. i < length steps \<and> (\<forall>j. j < i \<longrightarrow> succeeds env (steps ! j)) \<longrightarrow>
        i < length (invoked (trace env)) \<and> invoked (trace env) ! i = steps ! i)
   \<and> ((\<forall>args\<in>set steps. succeeds env args) \<longrightarrow> invoked (trace env) = steps)"
proof -
  obtain k where k: "1 \<le> k" "k \<le> 4" and inv: "invoked (trace env) = take k steps"
    and earlier: "\<forall>j. 1 \<le> j \<and> j < k \<longrightarrow> succeeds env (step j)"
    and last: "(\<forall>args\<in>set steps. succeeds env args) \<and> k = 4 \<or> \<not> succeeds env (step k)"
    by (rule launches)
  have four: "length steps = 4" by (simp add: steps_def)
  from k four have len: "length (invoked (trace env)) = k" by (simp add: inv)
  have exact: "invoked (trace env) = take (Suc (length (takeWhile (succeeds env) steps))) steps"
  proof (cases "\<forall>args\<in>set steps. succeeds env args")
    case True
    with last have "k = 4"
      using k by (auto simp: step_def four)
    with True inv show ?thesis
      by (simp add: launched_all take_all_steps)
  next
    case False
    with last have "\<not> succeeds env (step k)" by blast
    with k earlier inv show ?thesis
      by (simp add: launched_stop)
  qed
  have pre: "prefix (invoked (trace env)) steps"
    by (simp add: inv take_is_prefix)
  have safe: "succeeds env (steps ! j)" if "j < i \<and> i < length (invoked (trace env))" for i j
  proof -
    from that len have "1 \<le> Suc j \<and> Suc j < k" by simp
    with earlier have "succeeds env (step (Suc j))" by blast
    then show ?thesis by (simp add: step_def)
  qed
  have live: "i < length (invoked (trace env)) \<and> invoked (trace env) ! i = steps ! i"
    if "i < length steps \<and> (\<forall>j. j < i \<longrightarrow> succeeds env (steps ! j))" for i
  proof -
    have "i < k"
    proof (rule ccontr)
      assume "\<not> i < k"
      with that four k have "k - 1 < i" "k < 4" by simp_all
      with that have "succeeds env (steps ! (k - 1))" by blast
      then have "succeeds env (step k)" by (simp add: step_def)
      with last \<open>k < 4\<close> show False by simp
    qed
    with len inv show ?thesis by simp
  qed
  have full: "invoked (trace env) = steps" if "\<forall>args\<in>set steps. succeeds env args"
  proof -
    from that k have "succeeds env (step k)"
      using step_number [of k] by (auto simp: all_steps)
    with last have "k = 4" by blast
    with inv show ?thesis by (simp add: take_all_steps)
  qed
  from exact pre safe live full show ?thesis by blast
qed

theorem steps_in_order_witness:
  "succeeds env_A install_args \<and> succeeds env_A build_args \<and> succeeds env_A test_args
   \<and> succeeds env_A lint_args
   \<and> invoked (trace env_A) = [install_args, build_args, test_args, lint_args]
   \<and> succeeds env_B install_args \<and> env_B build_args = Exited 2 ''tsc'' ''TS2304''
   \<and> invoked (trace env_B) = [install_args, build_args]
   \<and> prefix [install_args, build_args] steps"
proof -
  have ok: "\<forall>args\<in>set steps. succeeds env_A args"
    by (rule env_A_succeeds)
  then have a: "succeeds env_A install_args" "succeeds env_A build_args"
    "succeeds env_A test_args" "succeeds env_A lint_args"
    by (simp_all add: steps_def)
  from ok have "invoked (trace env_A) = steps"
    using steps_in_order [of env_A] by blast
  then have ia: "invoked (trace env_A) = [install_args, build_args, test_args, lint_args]"
    by (simp add: steps_def)
  have b: "succeeds env_B install_args" "env_B build_args = Exited 2 ''tsc'' ''TS2304''"
    by (simp_all add: succeeds_def env_B_args)
  then have "takeWhile (succeeds env_B) steps = [install_args]"
    by (simp add: steps_def succeeds_def)
  then have "take (Suc (length (takeWhile (succeeds env_B) steps))) steps =
      [install_args, build_args]"
    by (simp add: steps_def)
  then have ib: "invoked (trace env_B) = [install_args, build_args]"
    using steps_in_order [of env_B] by simp
  have "prefix (invoked (trace env_B)) steps"
    using steps_in_order [of env_B] by blast
  with ib have "prefix [install_args, build_args] steps" by simp
  with a ia b ib show ?thesis by blast
qed

subsection \<open>A command that fails\<close>

text \<open>
  C4. When a step's command completes with a non-zero exit code, the process prints that
  exit code (in the line \<^verbatim>\<open>Error: Command failed with exit code N\<close>), prints the
  captured standard output and the captured standard error of that command, each when
  it is not empty, and then exits with code 1: the run ends with these prints.
\<close>

theorem failure_report:
  assumes "1 \<le> k" "k \<le> 4"
    and "\<forall>j. 1 \<le> j \<and> j < k \<longrightarrow> succeeds env (step j)"
    and "env (step k) = Exited rc out err" "rc \<noteq> 0"
  shows "suffix
      ([Say (''Error: Command failed with exit code '' @ str_int rc)] @
       (if out \<noteq> [] then [Say (newline # ''Output:''), Forward out] else []) @
       (if err \<noteq> [] then [Say (newline # ''Error:''), Forward err] else []))
      (trace env)
    \<and> (out \<noteq> [] \<longrightarrow> Forward out \<in> set (trace env))
    \<and> (err \<noteq> [] \<longrightarrow> Forward err \<in> set (trace env))
    \<and> exit_code env = 1"
proof -
  let ?report = "[Say (''Error: Command failed with exit code '' @ str_int rc)] @
       (if out \<noteq> [] then [Say (newline # ''Output:''), Forward out] else []) @
       (if err \<noteq> [] then [Say (newline # ''Error:''), Forward err] else [])"
  have run: "run env =
    ([Say header_line, Say ''''] @ blocks env (k - 1) @
     [Say (banner k), Invoke (step k), Say (error_summary rc)] @
     captured_block ''Output:'' out @ captured_block ''Error:'' err, 1)"
    using assms by (rule run_failed)
  then have "trace env =
    ([Say header_line, Say ''''] @ blocks env (k - 1) @ [Say (banner k), Invoke (step k)]) @
    ?report"
    by (simp add: trace_def error_summary_def captured_block_def)
  then have "suffix ?report (trace env)"
    by (simp only: suffix_def) blast
  moreover from run have "out \<noteq> [] \<longrightarrow> Forward out \<in> set (trace env)"
    and "err \<noteq> [] \<longrightarrow> Forward err \<in> set (trace env)"
    by (simp_all add: trace_def captured_block_def)
  moreover from run have "exit_code env = 1"
    by (simp add: exit_code_def)
  ultimately show ?thesis by blast
qed

theorem failure_report_witness:
  "env_B (step 2) = Exited 2 ''tsc'' ''TS2304'' \<and> succeeds env_B (step 1)
   \<and> suffix [Say ''Error: Command failed with exit code 2'',
        Say (newline # ''Output:''), Forward ''tsc'',
        Say (newline # ''Error:''), Forward ''TS2304''] (trace env_B)
   \<and> Forward ''tsc'' \<in> set (trace env_B) \<and> Forward ''TS2304'' \<in> set (trace env_B)
   \<and> exit_code env_B = 1"
proof -
  have first: "succeeds env_B (step 1)"
    by (simp only: succeeds_def env_B_simps succeeded.simps)
  then have earlier: "\<forall>j. 1 \<le> j \<and> j < 2 \<longrightarrow> succeeds env_B (step j)"
    by (simp only: earlier_steps)
  have second: "env_B (step 2) = Exited 2 ''tsc'' ''TS2304''"
    by (rule env_B_simps)
  have two: "str_int 2 = ''2''"
    by (simp add: str_int_def str_nat.simps digit_def)
  have "suffix
      ([Say (''Error: Command failed with exit code '' @ str_int 2)] @
       (if ''tsc'' \<noteq> [] then [Say (newline # ''Output:''), Forward ''tsc''] else []) @
       (if ''TS2304'' \<noteq> [] then [Say (newline # ''Error:''), Forward ''TS2304''] else []))
      (trace env_B)
    \<and> (''tsc'' \<noteq> [] \<longrightarrow> Forward ''tsc'' \<in> set (trace env_B))
    \<and> (''TS2304'' \<noteq> [] \<longrightarrow> Forward ''TS2304'' \<in> set (trace env_B))
    \<and> exit_code env_B = 1"
    using failure_report [of 2 env_B 2 "''tsc''" "''TS2304''"] earlier second
    by simp
  with first second two show ?thesis by simp
qed

subsection \<open>Order of the failure report\<close>

text \<open>
  C5, as amended. When a step's command fails with a non-zero exit code, the error summary
  line is printed first and once; the captured standard output and standard error of the
  failing command (each if not empty, each under its labelled header) are printed after
  it, in this order, and nothing follows them.
  The specification has them before the summary line; in scenario B neither comes before
  it.
\<close>

theorem report_order:
  assumes "1 \<le> k" "k \<le> 4"
    and "\<forall>j. 1 \<le> j \<and> j < k \<longrightarrow> succeeds env (step j)"
    and "env (step k) = Exited rc out err" "rc \<noteq> 0"
  shows "(\<exists>pre. trace env = pre @ [Say (error_summary rc)] @
        captured_block ''Output:'' out @ captured_block ''Error:'' err
      \<and> Say (error_summary rc) \<notin> set pre)
    \<and> (out \<noteq> [] \<longrightarrow> emitted_before (Say (error_summary rc)) (Forward out) (trace env))
    \<and> (err \<noteq> [] \<longrightarrow> emitted_before (Say (error_summary rc)) (Forward err) (trace env))"
proof -
  let ?pre = "[Say header_line, Say ''''] @ blocks env (k - 1) @ [Say (banner k), Invoke (step k)]"
  let ?post = "captured_block ''Output:'' out @ captured_block ''Error:'' err"
  have "run env =
    ([Say header_line, Say ''''] @ blocks env (k - 1) @
     [Say (banner k), Invoke (step k), Say (error_summary rc)] @
     captured_block ''Output:'' out @ captured_block ''Error:'' err, 1)"
    using assms by (rule run_failed)
  then have eq: "trace env = ?pre @ Say (error_summary rc) # ?post"
    by (simp add: trace_def)
  from assms(2) have "Say (error_summary rc) \<notin> set (blocks env (k - 1))"
    by (intro summary_not_in_blocks) simp
  with assms(1,2) have fresh: "Say (error_summary rc) \<notin> set ?pre"
    by (simp add: summary_not_banner)
  have "emitted_before (Say (error_summary rc)) (Forward out) (trace env)" if "out \<noteq> []"
  proof -
    from that have "Forward out \<in> set ?post" by (simp add: captured_block_def)
    with eq show ?thesis by (simp only: emitted_before_iff) blast
  qed
  moreover have "emitted_before (Say (error_summary rc)) (Forward err) (trace env)"
    if "err \<noteq> []"
  proof -
    from that have "Forward err \<in> set ?post" by (simp add: captured_block_def)
    with eq show ?thesis by (simp only: emitted_before_iff) blast
  qed
  moreover from eq fresh have "\<exists>pre. trace env = pre @ [Say (error_summary rc)] @ ?post
      \<and> Say (error_summary rc) \<notin> set pre"
    by (intro exI [of _ ?pre]) simp
  ultimately show ?thesis by blast
qed

theorem report_order_witness:
  "env_B (step 2) = Exited 2 ''tsc'' ''TS2304'' \<and> succeeds env_B (step 1)
   \<and> emitted_before (Say (error_summary 2)) (Forward ''tsc'') (trace env_B)
   \<and> emitted_before (Say (error_summary 2)) (Forward ''TS2304'') (trace env_B)"
proof -
  have first: "succeeds env_B (step 1)"
    by (simp only: succeeds_def env_B_simps succeeded.simps)
  then have earlier: "\<forall>j. 1 \<le> j \<and> j < 2 \<longrightarrow> succeeds env_B (step j)"
    by (simp only: earlier_steps)
  have second: "env_B (step 2) = Exited 2 ''tsc'' ''TS2304''"
    by (rule env_B_simps)
  have "(''tsc'' \<noteq> [] \<longrightarrow> emitted_before (Say (error_summary 2)) (Forward ''tsc'') (trace env_B))
    \<and> (''TS2304'' \<noteq> [] \<longrightarrow>
        emitted_before (Say (error_summary 2)) (Forward ''TS2304'') (trace env_B))"
    using report_order [of 2 env_B 2 "''tsc''" "''TS2304''"] earlier second
    by simp
  with first second show ?thesis by simp
qed

theorem report_order_counterexample:
  "env_B (step 2) = Exited 2 ''tsc'' ''TS2304'' \<and> succeeds env_B (step 1)
   \<and> \<not> emitted_before (Forward ''tsc'') (Say (error_summary 2)) (trace env_B)
   \<and> \<not> emitted_before (Forward ''TS2304'') (Say (error_summary 2)) (trace env_B)"
proof -
  have "succeeds env_B (step 1)"
    by (simp only: succeeds_def env_B_simps succeeded.simps)
  moreover have "env_B (step 2) = Exited 2 ''tsc'' ''TS2304''"
    by (rule env_B_simps)
  moreover have "\<not> emitted_before (Forward ''tsc'') (Say (error_summary 2)) (trace env_B)"
    by (simp add: trace_def run_env_B summary_not_banner)
  moreover have "\<not> emitted_before (Forward ''TS2304'') (Say (error_summary 2)) (trace env_B)"
    by (simp add: trace_def run_env_B summary_not_banner)
  ultimately show ?thesis by blast
qed

subsection \<open>A step that succeeds\<close>

text \<open>
  C6. For every step that succeeds with a non-empty captured standard output, that output
  is printed whole, right after the step's start banner and the launch of its command, and
  right before the step's success line, which a blank line follows.
\<close>

theorem step_output:
  assumes "1 \<le> k" "k \<le> 4"
    and "\<forall>j. 1 \<le> j \<and> j < k \<longrightarrow> succeeds env (step j)"
    and "env (step k) = Exited 0 out err" "out \<noteq> []"
  shows "\<exists>pre post. trace env =
    pre @ [Say (banner k), Invoke (step k), Forward out, Say (success_line k), Say ''''] @ post"
proof -
  from assms(4) have "succeeds env (step k)" by (simp add: succeeds_def)
  with assms(3) have "\<forall>j. 1 \<le> j \<and> j \<le> k \<longrightarrow> succeeds env (step j)"
    by (auto simp: le_less)
  with assms(1,2) obtain post
    where t: "trace env = [Say header_line, Say ''''] @ blocks env k @ post"
    using trace_reaches by blast
  from assms(1) have "k = Suc (k - 1)" by simp
  then have "blocks env k = blocks env (k - 1) @ ok_block k (stdout_of (env (step k)))"
    by (metis blocks.simps(2))
  with assms(4,5) have "blocks env k = blocks env (k - 1) @
      [Say (banner k), Invoke (step k), Forward out, Say (success_line k), Say '''']"
    by (simp add: ok_block_def passthrough_def)
  with t have "trace env = ([Say header_line, Say ''''] @ blocks env (k - 1)) @
      [Say (banner k), Invoke (step k), Forward out, Say (success_line k), Say ''''] @ post"
    by simp
  then show ?thesis by blast
qed

theorem step_output_witness:
  "succeeds env_A (step 1) \<and> succeeds env_A (step 2)
   \<and> env_A (step 3) = Exited 0 ''12 passing'' ''npm warn''
   \<and> (\<exists>pre post. trace env_A =
        pre @ [Say (banner 3), Invoke (step 3), Forward ''12 passing'', Say (success_line 3),
          Say ''''] @ post)"
proof -
  have first: "succeeds env_A (step 1)" "succeeds env_A (step 2)"
    by (simp_all only: succeeds_def env_A_simps succeeded.simps)
  then have earlier: "\<forall>j. 1 \<le> j \<and> j < 3 \<longrightarrow> succeeds env_A (step j)"
    by (simp only: earlier_steps)
  have third: "env_A (step 3) = Exited 0 ''12 passing'' ''npm warn''"
    by (rule env_A_simps)
  have "\<exists>pre post. trace env_A =
        pre @ [Say (banner 3), Invoke (step 3), Forward ''12 passing'', Say (success_line 3),
          Say ''''] @ post"
    using step_output [of 3 env_A "''12 passing''" "''npm warn''"] earlier third
    by simp
  with first third show ?thesis by blast
qed

subsection \<open>A command that cannot be run\<close>

text \<open>
  C7. When running a step's command raises an exception other than the one for a non-zero
  exit code, the exception leaves the \<^verbatim>\<open>try\<close> block, the generic handler prints
  \<^verbatim>\<open>Error:\<close> followed by the description of the exception as the last line of the run,
  no later command is launched, and the process exits with code 1.
\<close>

theorem invocation_error:
  assumes "1 \<le> k" "k \<le> 4"
    and "\<forall>j. 1 \<le> j \<and> j < k \<longrightarrow> succeeds env (step j)"
    and "env (step k) = Raised msg"
  shows "fst (try_body env) = Inl (Exception msg)
    \<and> suffix [Say (''Error: '' @ msg)] (trace env)
    \<and> invoked (trace env) = take k steps
    \<and> exit_code env = 1"
proof -
  have "step_block env k = (Inl (Exception msg), [Say (banner k), Invoke (step k)])"
    using assms(4) by (rule step_block_raised)
  with assms(1,2,3)
  have "try_body env = (Inl (Exception msg),
      blocks env (k - 1) @ [Say (banner k), Invoke (step k)])"
    by (rule try_body_stop)
  then have raised: "fst (try_body env) = Inl (Exception msg)" by simp
  have run: "run env =
    ([Say header_line, Say ''''] @ blocks env (k - 1) @
     [Say (banner k), Invoke (step k), Say (''Error: '' @ msg)], 1)"
    using assms by (rule run_raised)
  then have "trace env =
    ([Say header_line, Say ''''] @ blocks env (k - 1) @ [Say (banner k), Invoke (step k)]) @
    [Say (''Error: '' @ msg)]"
    by (simp add: trace_def)
  then have "suffix [Say (''Error: '' @ msg)] (trace env)"
    by (simp only: suffix_def) blast
  moreover from run assms(1,2) have "invoked (trace env) = take k steps"
    by (simp add: trace_def invoked_append invoked_blocks take_steps)
  moreover from run have "exit_code env = 1"
    by (simp add: exit_code_def)
  ultimately show ?thesis using raised by blast
qed

theorem invocation_error_witness:
  "env_C (step 1) = Raised ''[WinError 2] The system cannot find the file specified''
   \<and> fst (try_body env_C) =
       Inl (Exception ''[WinError 2] The system cannot find the file specified'')
   \<and> suffix [Say ''Error: [WinError 2] The system cannot find the file specified'']
       (trace env_C)
   \<and> invoked (trace env_C) = [install_args]
   \<and> exit_code env_C = 1"
proof -
  have first: "env_C (step 1) = Raised ''[WinError 2] The system cannot find the file specified''"
    by (rule env_C_simps)
  have none: "\<forall>j. 1 \<le> j \<and> j < (1::nat) \<longrightarrow> succeeds env_C (step j)"
    by (simp only: earlier_steps)
  have "take 1 steps = [install_args]"
    by (simp add: steps_def)
  with first none show ?thesis
    using invocation_error [of 1 env_C "''[WinError 2] The system cannot find the file specified''"]
    by simp
qed

subsection \<open>Exit codes\<close>

text \<open>
  C8. The exit code of the process is 0 when all four steps succeed and 1 in every other
  case, whether a command returned a non-zero exit code or could not be run at all; no
  other exit code occurs.
\<close>

theorem exit_codes:
  "exit_code env = (if \<forall>args\<in>set steps. succeeds env args then 0 else 1)"
proof (cases env rule: run_cases)
  case all_ok
  then show ?thesis by (simp add: exit_code_def)
next
  case (failed k rc out err)
  then have "\<not> succeeds env (step k)" by (simp add: succeeds_def)
  moreover from failed(1,2) have "step k \<in> set steps"
    using step_number [of k] by (auto simp: step_def steps_def)
  ultimately show ?thesis using failed(6) by (auto simp: exit_code_def)
next
  case (raised k msg)
  then have "\<not> succeeds env (step k)" by (simp add: succeeds_def)
  moreover from raised(1,2) have "step k \<in> set steps"
    using step_number [of k] by (auto simp: step_def steps_def)
  ultimately show ?thesis using raised(5) by (auto simp: exit_code_def)
qed

theorem exit_codes_witness:
  "exit_code env_A = 0 \<and> exit_code env_B = 1 \<and> exit_code env_C = 1"
  using exit_codes [of env_A] exit_codes [of env_B] exit_codes [of env_C]
    env_A_succeeds env_B_fails env_C_fails
  by simp

subsection \<open>Standard error of a step that succeeds\<close>

text \<open>
  C9. The captured standard error of a step that succeeds is never printed, empty or not:
  two runs whose commands answer alike, except for the standard error of the commands
  that exit with code 0, print the same, launch the same and exit alike.
\<close>

theorem stderr_discarded:
  assumes "\<forall>args. without_ok_stderr (env args) = without_ok_stderr (env' args)"
  shows "run env = run env'"
proof -
  from assms have "step_block env k = step_block env' k" for k
    by (intro step_block_stderr) simp
  then have "try_body env = try_body env'"
    by (simp add: try_body_def step_blocks)
  then show ?thesis
    by (simp add: run_def main_def)
qed

theorem stderr_discarded_witness:
  "env_A test_args = Exited 0 ''12 passing'' ''npm warn''
   \<and> (without_ok_stderr \<circ> env_A) test_args = Exited 0 ''12 passing'' []
   \<and> run env_A = run (without_ok_stderr \<circ> env_A)"
proof -
  have same: "without_ok_stderr (env_A args) = without_ok_stderr ((without_ok_stderr \<circ> env_A) args)"
    for args
    by (cases "env_A args") simp_all
  then have "run env_A = run (without_ok_stderr \<circ> env_A)"
    using stderr_discarded [of env_A "without_ok_stderr \<circ> env_A"] by blast
  then show ?thesis by (simp add: env_A_args)
qed

subsection \<open>The header\<close>

text \<open>
  C10. Whatever the commands answer, the run begins with the header line and a blank line;
  the start banner of step 1 and the launch of the first command come after them.
\<close>

theorem header_first:
  "(\<exists>rest. trace env =
      Say header_line # Say '''' # Say (banner 1) # Invoke (step 1) # rest)
   \<and> prefix (header_line @ [newline, newline]) (console (trace env))"
proof -
  have "\<exists>rest. trace env = Say header_line # Say '''' # Say (banner 1) # Invoke (step 1) # rest"
  proof (cases env rule: run_cases)
    case all_ok
    obtain r where "blocks env 4 = Say (banner 1) # Invoke (step 1) # r"
      using blocks_start [of 4 env] by auto
    with all_ok(2) show ?thesis by (simp add: trace_def)
  next
    case (failed k rc out err)
    show ?thesis
    proof (cases "k = 1")
      case True
      with failed(6) show ?thesis by (simp add: trace_def)
    next
      case False
      with failed(1) have "1 \<le> k - 1" by simp
      then obtain r where "blocks env (k - 1) = Say (banner 1) # Invoke (step 1) # r"
        using blocks_start [of "k - 1" env] by auto
      with failed(6) show ?thesis by (simp add: trace_def)
    qed
  next
    case (raised k msg)
    show ?thesis
    proof (cases "k = 1")
      case True
      with raised(5) show ?thesis by (simp add: trace_def)
    next
      case False
      with raised(1) have "1 \<le> k - 1" by simp
      then obtain r where "blocks env (k - 1) = Say (banner 1) # Invoke (step 1) # r"
        using blocks_start [of "k - 1" env] by auto
      with raised(5) show ?thesis by (simp add: trace_def)
    qed
  qed
  moreover from this have "prefix (header_line @ [newline, newline]) (console (trace env))"
    by (auto simp: prefix_def)
  ultimately show ?thesis by blast
qed

end
